theory Spec2Isabelle
  imports Main
begin

section \<open>Characters and the string primitives the program calls\<close>

text \<open>
  A Python \<open>str\<close> is a sequence of code points. The model uses \<^typ>\<open>string\<close>, whose
  characters are the code points U+0000 to U+00FF, and gives Python's character
  predicates their values on that range: \<open>len\<close> is \<^const>\<open>length\<close>, one \<^typ>\<open>char\<close> is one
  code point.
\<close>

definition cp :: "char \<Rightarrow> nat" where
  "cp c = of_char c"

definition isdecimal :: "char \<Rightarrow> bool" where
  \<comment> \<open>the class \<open>\d\<close> of \<open>re\<close> on \<open>str\<close> patterns: Unicode category Nd\<close>
  "isdecimal c = (48 \<le> cp c \<and> cp c \<le> 57)"

definition isdigit_chr :: "char \<Rightarrow> bool" where
  \<comment> \<open>one character of \<open>str.isdigit\<close>: the decimals and the superscripts 2, 3, 1\<close>
  "isdigit_chr c = (isdecimal c \<or> cp c = 178 \<or> cp c = 179 \<or> cp c = 185)"

definition isalpha_chr :: "char \<Rightarrow> bool" where
  "isalpha_chr c =
     ((65 \<le> cp c \<and> cp c \<le> 90) \<or> (97 \<le> cp c \<and> cp c \<le> 122) \<or>
      cp c = 170 \<or> cp c = 181 \<or> cp c = 186 \<or>
      (192 \<le> cp c \<and> cp c \<le> 214) \<or> (216 \<le> cp c \<and> cp c \<le> 246) \<or> 248 \<le> cp c)"

definition isnumeric_chr :: "char \<Rightarrow> bool" where
  "isnumeric_chr c = (isdigit_chr c \<or> (188 \<le> cp c \<and> cp c \<le> 190))"

definition isword :: "char \<Rightarrow> bool" where
  \<comment> \<open>the class \<open>\w\<close>: alphanumeric or underscore\<close>
  "isword c = (isalpha_chr c \<or> isnumeric_chr c \<or> cp c = 95)"

definition isspace_chr :: "char \<Rightarrow> bool" where
  \<comment> \<open>the class \<open>\s\<close>, and what \<open>str.strip\<close> removes\<close>
  "isspace_chr c =
     ((9 \<le> cp c \<and> cp c \<le> 13) \<or> (28 \<le> cp c \<and> cp c \<le> 32) \<or> cp c = 133 \<or> cp c = 160)"

definition lower_chr :: "char \<Rightarrow> char" where
  "lower_chr c =
     (if (65 \<le> cp c \<and> cp c \<le> 90) \<or> (192 \<le> cp c \<and> cp c \<le> 222 \<and> cp c \<noteq> 215)
      then char_of (cp c + 32) else c)"

definition lower :: "string \<Rightarrow> string" where
  "lower s = map lower_chr s"

definition startswith :: "string \<Rightarrow> string \<Rightarrow> bool" where
  "startswith s p = (take (length p) s = p)"

definition endswith :: "string \<Rightarrow> string \<Rightarrow> bool" where
  "endswith s p = (length p \<le> length s \<and> drop (length s - length p) s = p)"

fun contains :: "string \<Rightarrow> string \<Rightarrow> bool" where
  \<comment> \<open>\<open>sub in s\<close>\<close>
  "contains [] sub = (sub = [])"
| "contains (c # cs) sub = (startswith (c # cs) sub \<or> contains cs sub)"

fun split :: "string \<Rightarrow> char \<Rightarrow> string list" where
  \<comment> \<open>\<open>s.split(sep)\<close> for a separator of one character\<close>
  "split [] sep = [[]]"
| "split (c # cs) sep =
     (if c = sep then [] # split cs sep
      else (case split cs sep of [] \<Rightarrow> [[c]] | p # ps \<Rightarrow> (c # p) # ps))"

definition remove_chr :: "string \<Rightarrow> char \<Rightarrow> string" where
  \<comment> \<open>\<open>s.replace(c, '')\<close> for a single character \<open>c\<close>\<close>
  "remove_chr s c = filter (\<lambda>x. x \<noteq> c) s"

definition isdigit :: "string \<Rightarrow> bool" where
  \<comment> \<open>\<open>str.isdigit\<close>: false on the empty string\<close>
  "isdigit s = (s \<noteq> [] \<and> list_all isdigit_chr s)"

definition strip :: "string \<Rightarrow> string" where
  "strip s = rev (dropWhile isspace_chr (rev (dropWhile isspace_chr s)))"

definition sub_nondigits :: "string \<Rightarrow> string" where
  \<comment> \<open>\<open>re.sub(r'\D', '', s)\<close>: every character outside \<open>\d\<close> is replaced by nothing\<close>
  "sub_nondigits s = filter isdecimal s"

definition len_set :: "string \<Rightarrow> nat" where
  \<comment> \<open>\<open>len(set(s))\<close>\<close>
  "len_set s = length (remdups s)"

section \<open>Regular expressions: a backtracking matcher\<close>

text \<open>
  The four patterns of \<open>__init__\<close> are given to \<open>re.findall\<close>, whose engine tries the
  alternatives of a pattern in a fixed order and returns the first match it completes. The
  model keeps that order: \<open>ms r t i\<close> lists the positions at which a match of \<open>r\<close> in the
  text \<open>t\<close> that begins at position \<open>i\<close> can end, in the order in which the engine reaches
  them, so that the head of the list is the match the engine reports. A character set
  \<open>[...]\<close> is the list of its members; all repetitions in the patterns are greedy.
\<close>

datatype atom = Lit char | Digit | Word | Space

fun atom_has :: "atom \<Rightarrow> char \<Rightarrow> bool" where
  "atom_has (Lit a) c = (c = a)"
| "atom_has Digit c = isdecimal c"
| "atom_has Word c = isword c"
| "atom_has Space c = isspace_chr c"

datatype rx =
    Eps
  | Sym "atom list"
  | Bnd
  | Cat rx rx
  | Alt rx rx
  | Rep nat nat rx
  | Star rx

definition Plus :: "rx \<Rightarrow> rx" where
  "Plus r = Cat r (Star r)"

definition Opt :: "rx \<Rightarrow> rx" where
  "Opt r = Rep 0 1 r"

fun lits :: "string \<Rightarrow> rx" where
  "lits [] = Eps"
| "lits [c] = Sym [Lit c]"
| "lits (c # cs) = Cat (Sym [Lit c]) (lits cs)"

definition at_boundary :: "string \<Rightarrow> nat \<Rightarrow> bool" where
  \<comment> \<open>\<open>\b\<close>: exactly one of the characters before and after the position is a word
      character; outside the text there is none\<close>
  "at_boundary t i =
     ((0 < i \<and> i \<le> length t \<and> isword (t ! (i - 1))) \<noteq> (i < length t \<and> isword (t ! i)))"

fun rep :: "(nat \<Rightarrow> nat list) \<Rightarrow> nat \<Rightarrow> nat \<Rightarrow> nat \<Rightarrow> nat list" where
  \<comment> \<open>\<open>{lo,hi}\<close>, greedy: one more repetition is tried before stopping\<close>
  "rep f lo 0 i = (if lo = 0 then [i] else [])"
| "rep f lo (Suc hi) i =
     concat (map (rep f (lo - 1) hi) (f i)) @ (if lo = 0 then [i] else [])"

function star :: "(nat \<Rightarrow> nat list) \<Rightarrow> nat \<Rightarrow> nat \<Rightarrow> nat list" where
  \<comment> \<open>\<open>*\<close>, greedy, in a text of length \<open>n\<close>; a repetition that consumed nothing is not
      repeated\<close>
  "star f n i =
     concat (map (\<lambda>j. if i < j \<and> j \<le> n then star f n j else [j]) (f i)) @ [i]"
  by pat_completeness auto
termination
  by (relation "measure (\<lambda>(f, n, i). n - i)") auto

declare star.simps [simp del]

primrec ms :: "rx \<Rightarrow> string \<Rightarrow> nat \<Rightarrow> nat list" where
  "ms Eps t i = [i]"
| "ms (Sym k) t i = (if i < length t \<and> list_ex (\<lambda>a. atom_has a (t ! i)) k then [Suc i] else [])"
| "ms Bnd t i = (if at_boundary t i then [i] else [])"
| "ms (Cat a b) t i = concat (map (ms b t) (ms a t i))"
| "ms (Alt a b) t i = ms a t i @ ms b t i"
| "ms (Rep lo hi a) t i = rep (ms a t) lo hi i"
| "ms (Star a) t i = star (ms a t) (length t) i"

text \<open>
  \<open>re.findall\<close> scans the text from left to right: at each position it takes the first
  match that begins there, if any, and goes on from its end (from the next position after an
  empty match). None of the patterns has a capturing group, so the result is the list of
  the matched substrings.
\<close>

function scan :: "rx \<Rightarrow> string \<Rightarrow> nat \<Rightarrow> (nat \<times> nat) list" where
  \<comment> \<open>the spans \<open>(start, end)\<close> of the matches found from position \<open>i\<close> on\<close>
  "scan r t i =
     (if length t < i then []
      else (case ms r t i of
              [] \<Rightarrow> scan r t (Suc i)
            | j # _ \<Rightarrow> if i < j then (i, j) # scan r t j else (i, i) # scan r t (Suc i)))"
  by pat_completeness auto
termination
  by (relation "measure (\<lambda>(r, t, i). Suc (length t) - i)") auto

declare scan.simps [simp del]

definition slice :: "string \<Rightarrow> nat \<times> nat \<Rightarrow> string" where
  \<comment> \<open>\<open>t[i:j]\<close>\<close>
  "slice t ij = take (snd ij - fst ij) (drop (fst ij) t)"

definition findall :: "rx \<Rightarrow> string \<Rightarrow> string list" where
  "findall r t = map (slice t) (scan r t 0)"

definition email_pattern :: rx where
  \<comment> \<open>\<^verbatim>\<open>[\w.+-]+@[\w-]+(?:\.[\w-]+)+\<close>\<close>
  "email_pattern =
     Cat (Plus (Sym [Word, Lit CHR ''.'', Lit CHR ''+'', Lit CHR ''-'']))
    (Cat (Sym [Lit CHR ''@''])
    (Cat (Plus (Sym [Word, Lit CHR ''-'']))
         (Plus (Cat (Sym [Lit CHR ''.'']) (Plus (Sym [Word, Lit CHR ''-'']))))))"

definition url_pattern :: rx where
  \<comment> \<open>\<^verbatim>\<open>https?://[\w.-]+(?:/[\w./?%&=+-]*)?\<close>\<close>
  "url_pattern =
     Cat (lits ''http'')
    (Cat (Opt (Sym [Lit CHR ''s'']))
    (Cat (lits ''://'')
    (Cat (Plus (Sym [Word, Lit CHR ''.'', Lit CHR ''-'']))
         (Opt (Cat (Sym [Lit CHR ''/''])
                   (Star (Sym [Word, Lit CHR ''.'', Lit CHR ''/'', Lit CHR ''?'', Lit CHR ''%'',
                               Lit CHR ''&'', Lit CHR ''='', Lit CHR ''+'', Lit CHR ''-''])))))))"

definition sep :: rx where
  \<comment> \<open>\<^verbatim>\<open>[-.\s]?\<close>\<close>
  "sep = Opt (Sym [Lit CHR ''-'', Lit CHR ''.'', Space])"

definition phone_pattern :: rx where
  \<comment> \<open>\<^verbatim>\<open>(?:\+\d{1,3}[-.\s]?)?(?:\(\d{3}\)|\d{3})[-.\s]?\d{3}[-.\s]?\d{4}\<close> followed by
      \<^verbatim>\<open>(?:\s?(?:ext|x)\s?\d{2,5})?\<close>\<close>
  "phone_pattern =
     Cat (Opt (Cat (Sym [Lit CHR ''+'']) (Cat (Rep 1 3 (Sym [Digit])) sep)))
    (Cat (Alt (Cat (Sym [Lit CHR ''(''])  (Cat (Rep 3 3 (Sym [Digit])) (Sym [Lit CHR '')''])))
              (Rep 3 3 (Sym [Digit])))
    (Cat sep
    (Cat (Rep 3 3 (Sym [Digit]))
    (Cat sep
    (Cat (Rep 4 4 (Sym [Digit]))
         (Opt (Cat (Opt (Sym [Space]))
              (Cat (Alt (lits ''ext'') (lits ''x''))
              (Cat (Opt (Sym [Space]))
                   (Rep 2 5 (Sym [Digit])))))))))))"

definition credit_card_pattern :: rx where
  \<comment> \<open>\<^verbatim>\<open>\b(?:\d[ -]?){13,19}\b\<close>\<close>
  "credit_card_pattern =
     Cat Bnd
    (Cat (Rep 13 19 (Cat (Sym [Digit]) (Opt (Sym [Lit CHR '' '', Lit CHR ''-'']))))
         Bnd)"

section \<open>The program: validators and extraction\<close>

text \<open>
  A call either returns a value or raises: its result is a value of \<open>exn + 'a\<close>, with
  \<open>Inl\<close> for the exception. The program raises in one place, the unpacking of the split
  in \<open>validate_email\<close>, and catches \<open>ValueError\<close> there. A finding is a dictionary with
  the keys \<open>type\<close>, \<open>value\<close>, \<open>status\<close> and, for an accepted card, \<open>raw_format\<close>.
\<close>

datatype exn = ValueError

definition unpack2 :: "string list \<Rightarrow> exn + string \<times> string" where
  \<comment> \<open>\<open>local, domain = parts\<close>: raises unless there are exactly two parts\<close>
  "unpack2 parts = (case parts of [a, b] \<Rightarrow> Inr (a, b) | _ \<Rightarrow> Inl ValueError)"

definition bad_stuff :: "string list" where
  "bad_stuff = [''union'', ''select'', ''drop'', ''--'', ''/*'', ''*/'']"

definition validate_email :: "string \<Rightarrow> exn + bool" where
  "validate_email email =
     (if contains email ''..'' \<or> startswith email ''.'' \<or> endswith email ''.'' then Inr False
      else (case unpack2 (split email CHR ''@'') of
              Inl ValueError \<Rightarrow> Inr False
            | Inr (local, domain) \<Rightarrow>
                if length local > 64 \<or> length domain > 255 then Inr False
                else if list_ex (contains (lower email)) bad_stuff then Inr False
                else Inr True))"

definition validate_url :: "string \<Rightarrow> exn + bool" where
  "validate_url url =
     (if list_ex (startswith (lower url)) [''javascript:'', ''data:'', ''file:'', ''about:'']
      then Inr False
      else if list_ex (contains (lower url)) [''<script'', ''onerror'', ''onload''] then Inr False
      else if contains url [CHR 0x00] then Inr False
      else Inr True)"

definition validate_phone :: "string \<Rightarrow> exn + bool" where
  "validate_phone phone =
     (let digits = sub_nondigits phone in
      if \<not> (10 \<le> length digits \<and> length digits \<le> 15) then Inr False
      else if len_set digits = 1 then Inr False
      else Inr True)"

definition clean_of :: "string \<Rightarrow> string" where
  \<comment> \<open>\<open>card.replace(' ', '').replace('-', '')\<close>\<close>
  "clean_of cardno = remove_chr (remove_chr cardno CHR '' '') CHR ''-''"

definition validate_credit_card :: "string \<Rightarrow> exn + bool" where
  "validate_credit_card cardno =
     (let clean = clean_of cardno in
      if \<not> isdigit clean then Inr False
      else if \<not> (13 \<le> length clean \<and> length clean \<le> 19) then Inr False
      else if len_set clean = 1 then Inr False
      else Inr True)"

record finding =
  f_type :: string
  f_value :: string
  f_status :: string
  raw_format :: "string option"

definition mk :: "string \<Rightarrow> string \<Rightarrow> string \<Rightarrow> finding" where
  \<comment> \<open>a dictionary with the keys \<open>type\<close>, \<open>value\<close>, \<open>status\<close> and no \<open>raw_format\<close>\<close>
  "mk ty v st = \<lparr>f_type = ty, f_value = v, f_status = st, raw_format = None\<rparr>"

fun for_each :: "(string \<Rightarrow> exn + finding) \<Rightarrow> string list \<Rightarrow> finding list \<Rightarrow> exn + finding list" where
  \<comment> \<open>the loop \<open>for x in found: results.append(...)\<close>; an exception in the body leaves the loop\<close>
  "for_each body [] results = Inr results"
| "for_each body (x # xs) results =
     (case body x of Inl e \<Rightarrow> Inl e | Inr f \<Rightarrow> for_each body xs (results @ [f]))"

definition email_finding :: "string \<Rightarrow> exn + finding" where
  "email_finding email =
     (case validate_email email of
        Inl e \<Rightarrow> Inl e
      | Inr ok \<Rightarrow> Inr (if ok then mk ''email'' email ''valid'' else mk ''email'' email ''invalid''))"

definition extract_emails :: "string \<Rightarrow> exn + finding list" where
  "extract_emails text = for_each email_finding (findall email_pattern text) []"

definition url_finding :: "string \<Rightarrow> exn + finding" where
  "url_finding url =
     (case validate_url url of
        Inl e \<Rightarrow> Inl e
      | Inr ok \<Rightarrow> Inr (if ok then mk ''url'' url ''valid'' else mk ''url'' url ''invalid''))"

definition extract_urls :: "string \<Rightarrow> exn + finding list" where
  "extract_urls text = for_each url_finding (findall url_pattern text) []"

definition phone_finding :: "string \<Rightarrow> exn + finding" where
  "phone_finding phone =
     (case validate_phone phone of
        Inl e \<Rightarrow> Inl e
      | Inr ok \<Rightarrow> Inr (if ok then mk ''phone'' (strip phone) ''valid''
                       else mk ''phone'' (strip phone) ''invalid''))"

definition extract_phone_numbers :: "string \<Rightarrow> exn + finding list" where
  "extract_phone_numbers text = for_each phone_finding (findall phone_pattern text) []"

definition masked_of :: "string \<Rightarrow> string" where
  \<comment> \<open>\<open>'*' * (len(clean) - 4) + clean[-4:]\<close>; a negative count repeats nothing, and the
      slice is the whole string when it has fewer than four characters\<close>
  "masked_of clean = replicate (length clean - 4) CHR ''*'' @ drop (length clean - 4) clean"

definition credit_card_finding :: "string \<Rightarrow> exn + finding" where
  "credit_card_finding cardno =
     (case validate_credit_card cardno of
        Inl e \<Rightarrow> Inl e
      | Inr ok \<Rightarrow>
          Inr (if ok
               then (let clean = clean_of cardno; masked = masked_of clean
                     in \<lparr>f_type = ''credit_card'', f_value = masked, f_status = ''valid'',
                         raw_format = Some cardno\<rparr>)
               else mk ''credit_card'' cardno ''invalid''))"

definition extract_credit_cards :: "string \<Rightarrow> exn + finding list" where
  "extract_credit_cards text = for_each credit_card_finding (findall credit_card_pattern text) []"

record results =
  emails :: "finding list"
  urls :: "finding list"
  phones :: "finding list"
  credit_cards :: "finding list"


definition verdict :: "bool \<Rightarrow> string" where
  \<comment> \<open>the status string the two branches of each extraction loop write\<close>
  "verdict ok = (if ok then ''valid'' else ''invalid'')"

section \<open>The specification's predicates\<close>

definition email_rejected :: "string \<Rightarrow> bool" where
  \<comment> \<open>the rejection conditions of an email candidate, as the specification words them\<close>
  "email_rejected e =
     ((\<exists>u v. e = u @ ''..'' @ v) \<or> (\<exists>v. e = ''.'' @ v) \<or> (\<exists>u. e = u @ ''.'') \<or>
      \<not> (\<exists>l d. e = l @ ''@'' @ d \<and> CHR ''@'' \<notin> set l \<and> CHR ''@'' \<notin> set d) \<or>
      (\<exists>l d. e = l @ ''@'' @ d \<and> CHR ''@'' \<notin> set l \<and> CHR ''@'' \<notin> set d \<and>
             (64 < length l \<or> 255 < length d)) \<or>
      (\<exists>bad \<in> set [''union'', ''select'', ''drop'', ''--'', ''/*'', ''*/''].
         \<exists>u w v. e = u @ w @ v \<and> lower w = bad))"

definition card_accepted :: "string \<Rightarrow> bool" where
  \<comment> \<open>the acceptance conditions of a card candidate; a digit is a character of \<open>str.isdigit\<close>\<close>
  "card_accepted c =
     (let clean = filter (\<lambda>x. x \<noteq> CHR '' '' \<and> x \<noteq> CHR ''-'') c in
      (\<forall>x \<in> set clean. isdigit_chr x) \<and> 13 \<le> length clean \<and> length clean \<le> 19 \<and>
      \<not> (\<exists>d. \<forall>x \<in> set clean. x = d))"

definition phone_accepted :: "string \<Rightarrow> bool" where
  \<comment> \<open>the acceptance conditions of a phone candidate; a digit is a character of \<open>\d\<close>\<close>
  "phone_accepted p =
     (let digits = filter isdecimal p in
      10 \<le> length digits \<and> length digits \<le> 15 \<and> \<not> (\<exists>d. \<forall>x \<in> set digits. x = d))"



section \<open>Static analyses of a pattern\<close>

fun nullable :: "rx \<Rightarrow> bool" where
  \<comment> \<open>false only if no match of the pattern is empty\<close>
  "nullable Eps = True"
| "nullable (Sym k) = False"
| "nullable Bnd = True"
| "nullable (Cat a b) = (nullable a \<and> nullable b)"
| "nullable (Alt a b) = (nullable a \<or> nullable b)"
| "nullable (Rep lo hi a) = (lo = 0 \<or> nullable a)"
| "nullable (Star a) = True"

fun firstc :: "rx \<Rightarrow> char \<Rightarrow> bool" where
  \<comment> \<open>the characters a non-empty match may begin with\<close>
  "firstc Eps c = False"
| "firstc (Sym k) c = list_ex (\<lambda>a. atom_has a c) k"
| "firstc Bnd c = False"
| "firstc (Cat a b) c = (firstc a c \<or> (nullable a \<and> firstc b c))"
| "firstc (Alt a b) c = (firstc a c \<or> firstc b c)"
| "firstc (Rep lo hi a) c = firstc a c"
| "firstc (Star a) c = firstc a c"

fun lastc :: "rx \<Rightarrow> char \<Rightarrow> bool" where
  \<comment> \<open>the characters a non-empty match may end with\<close>
  "lastc Eps c = False"
| "lastc (Sym k) c = list_ex (\<lambda>a. atom_has a c) k"
| "lastc Bnd c = False"
| "lastc (Cat a b) c = (lastc b c \<or> (nullable b \<and> lastc a c))"
| "lastc (Alt a b) c = (lastc a c \<or> lastc b c)"
| "lastc (Rep lo hi a) c = lastc a c"
| "lastc (Star a) c = lastc a c"



definition digit_count :: "string \<Rightarrow> nat \<Rightarrow> nat \<Rightarrow> nat" where
  \<comment> \<open>the number of characters of \<open>\d\<close> in \<open>t[i:j]\<close>\<close>
  "digit_count t i j = length (filter isdecimal (slice t (i, j)))"


section \<open>Properties\<close>

subsection \<open>String primitives\<close>

lemma startswith_iff: "startswith s p \<longleftrightarrow> (\<exists>v. s = p @ v)"
  unfolding startswith_def
  by (metis append_eq_conv_conj append_take_drop_id)

lemma endswith_iff: "endswith s p \<longleftrightarrow> (\<exists>u. s = u @ p)"
proof
  assume "endswith s p"
  then have "s = take (length s - length p) s @ p"
    unfolding endswith_def by (metis append_take_drop_id)
  then show "\<exists>u. s = u @ p" ..
next
  assume "\<exists>u. s = u @ p"
  then show "endswith s p" unfolding endswith_def by auto
qed

lemma contains_iff: "contains s sub \<longleftrightarrow> (\<exists>u v. s = u @ sub @ v)"
proof (induction s)
  case Nil
  show ?case by auto
next
  case (Cons c cs)
  show ?case
  proof
    assume "contains (c # cs) sub"
    then consider "startswith (c # cs) sub" | "contains cs sub" by auto
    then show "\<exists>u v. c # cs = u @ sub @ v"
    proof cases
      case 1
      then obtain v where "c # cs = sub @ v" using startswith_iff by blast
      then have "c # cs = [] @ sub @ v" by simp
      then show ?thesis by blast
    next
      case 2
      then obtain u v where "cs = u @ sub @ v" using Cons.IH by blast
      then have "c # cs = (c # u) @ sub @ v" by simp
      then show ?thesis by blast
    qed
  next
    assume "\<exists>u v. c # cs = u @ sub @ v"
    then obtain u v where uv: "c # cs = u @ sub @ v" by blast
    show "contains (c # cs) sub"
    proof (cases u)
      case Nil
      then have "startswith (c # cs) sub" using uv startswith_iff by auto
      then show ?thesis by simp
    next
      case (Cons x u')
      then have "cs = u' @ sub @ v" using uv by simp
      then have "contains cs sub" using Cons.IH by blast
      then show ?thesis by simp
    qed
  qed
qed

lemma split_not_Nil: "split s c \<noteq> []"
  by (induction s) (auto split: list.splits)

lemma split_one: "split s c = [b] \<longleftrightarrow> s = b \<and> c \<notin> set b"
proof (induction s arbitrary: b)
  case Nil
  show ?case by auto
next
  case (Cons x xs)
  show ?case
  proof (cases "x = c")
    case True
    then show ?thesis using split_not_Nil[of xs c] by auto
  next
    case False
    obtain p ps where pps: "split xs c = p # ps"
      using split_not_Nil[of xs c] by (cases "split xs c") auto
    show ?thesis
    proof
      assume "split (x # xs) c = [b]"
      then have "b = x # p" "ps = []" using False pps by auto
      then show "x # xs = b \<and> c \<notin> set b" using Cons.IH[of p] pps False by auto
    next
      assume a: "x # xs = b \<and> c \<notin> set b"
      then have "split xs c = [xs]" using Cons.IH[of xs] by auto
      then show "split (x # xs) c = [b]" using a False by auto
    qed
  qed
qed

lemma split_two: "split s c = [a, b] \<longleftrightarrow> s = a @ c # b \<and> c \<notin> set a \<and> c \<notin> set b"
proof (induction s arbitrary: a)
  case Nil
  show ?case by auto
next
  case (Cons x xs)
  show ?case
  proof (cases "x = c")
    case True
    show ?thesis
    proof
      assume "split (x # xs) c = [a, b]"
      then have "a = []" "split xs c = [b]" using True by auto
      then show "x # xs = a @ c # b \<and> c \<notin> set a \<and> c \<notin> set b"
        using split_one[of xs c b] True by auto
    next
      assume h: "x # xs = a @ c # b \<and> c \<notin> set a \<and> c \<notin> set b"
      then have "a = []" using True by (cases a) auto
      then show "split (x # xs) c = [a, b]" using h True split_one[of xs c b] by auto
    qed
  next
    case False
    obtain p ps where pps: "split xs c = p # ps"
      using split_not_Nil[of xs c] by (cases "split xs c") auto
    show ?thesis
    proof
      assume "split (x # xs) c = [a, b]"
      then have "a = x # p" "ps = [b]" using False pps by auto
      then show "x # xs = a @ c # b \<and> c \<notin> set a \<and> c \<notin> set b"
        using Cons.IH[of p] pps False by auto
    next
      assume h: "x # xs = a @ c # b \<and> c \<notin> set a \<and> c \<notin> set b"
      then obtain a' where a': "a = x # a'" using False by (cases a) auto
      then have "split xs c = [a', b]" using Cons.IH[of a'] h by auto
      then show "split (x # xs) c = [a, b]" using a' False by auto
    qed
  qed
qed

lemma unpack2_cases:
  "(\<exists>a b. parts = [a, b] \<and> unpack2 parts = Inr (a, b)) \<or>
   ((\<forall>a b. parts \<noteq> [a, b]) \<and> unpack2 parts = Inl ValueError)"
  unfolding unpack2_def by (auto split: list.splits)

lemma len_set_one: "len_set s = 1 \<longleftrightarrow> s \<noteq> [] \<and> (\<exists>d. \<forall>x \<in> set s. x = d)"
proof -
  have "len_set s = card (set s)" unfolding len_set_def by (simp add: length_remdups_card_conv)
  moreover have "card (set s) = 1 \<longleftrightarrow> (\<exists>d. set s = {d})" by (simp add: card_1_singleton_iff)
  moreover have "(\<exists>d. set s = {d}) \<longleftrightarrow> s \<noteq> [] \<and> (\<exists>d. \<forall>x \<in> set s. x = d)"
    by (cases s) auto
  ultimately show ?thesis by simp
qed

lemma lower_contains:
  "(\<exists>u v. lower s = u @ b @ v) \<longleftrightarrow> (\<exists>u w v. s = u @ w @ v \<and> lower w = b)"
proof
  assume "\<exists>u v. lower s = u @ b @ v"
  then obtain u v where "map lower_chr s = u @ (b @ v)" unfolding lower_def by blast
  then obtain us vs where 1: "s = us @ vs" "map lower_chr vs = b @ v"
    by (metis map_eq_append_conv)
  from 1(2) obtain ws xs where 2: "vs = ws @ xs" "map lower_chr ws = b"
    by (metis map_eq_append_conv)
  have "s = us @ ws @ xs \<and> lower ws = b" using 1 2 unfolding lower_def by simp
  then show "\<exists>u w v. s = u @ w @ v \<and> lower w = b" by blast
next
  assume "\<exists>u w v. s = u @ w @ v \<and> lower w = b"
  then obtain u w v where "s = u @ w @ v" "lower w = b" by blast
  then have "lower s = lower u @ b @ lower v" unfolding lower_def by simp
  then show "\<exists>u v. lower s = u @ b @ v" by blast
qed

subsection \<open>The matcher\<close>

lemma set_rep_Suc:
  "set (rep f lo (Suc hi) i) =
     (\<Union>k \<in> set (f i). set (rep f (lo - 1) hi k)) \<union> (if lo = 0 then {i} else {})"
  by auto

lemma rep_closure:
  assumes step: "\<And>i j. j \<in> set (f i) \<Longrightarrow> P i j"
    and refl: "\<And>i. P i i"
    and trans: "\<And>i j k. P i j \<Longrightarrow> P j k \<Longrightarrow> P i k"
  shows "j \<in> set (rep f lo hi i) \<Longrightarrow> P i j"
proof (induction hi arbitrary: lo i)
  case 0
  then show ?case using refl by (auto split: if_splits)
next
  case (Suc hi)
  from Suc.prems consider k where "k \<in> set (f i)" "j \<in> set (rep f (lo - 1) hi k)" | "j = i"
    unfolding set_rep_Suc by (auto split: if_splits)
  then show ?case
  proof cases
    case 1
    then show ?thesis using step Suc.IH trans by blast
  next
    case 2
    then show ?thesis using refl by simp
  qed
qed

lemma star_closure:
  assumes step: "\<And>i j. j \<in> set (f i) \<Longrightarrow> P i j"
    and refl: "\<And>i. P i i"
    and trans: "\<And>i j k. P i j \<Longrightarrow> P j k \<Longrightarrow> P i k"
  shows "j \<in> set (star f n i) \<Longrightarrow> P i j"
proof (induction "n - i" arbitrary: i rule: less_induct)
  case less
  from less.prems
  have "j \<in> set (concat (map (\<lambda>k. if i < k \<and> k \<le> n then star f n k else [k]) (f i)) @ [i])"
    by (subst (asm) star.simps)
  then consider k where "k \<in> set (f i)" "i < k \<and> k \<le> n" "j \<in> set (star f n k)"
    | k where "k \<in> set (f i)" "j = k" | "j = i"
    by (auto split: if_splits)
  then show ?case
  proof cases
    case 1
    have "n - k < n - i" using 1(2) by arith
    then have "P k j" using less.hyps 1(3) by blast
    moreover have "P i k" using step 1(1) by blast
    ultimately show ?thesis using trans by blast
  next
    case 2
    then show ?thesis using step by blast
  next
    case 3
    then show ?thesis using refl by blast
  qed
qed

lemma ms_sound:
  "j \<in> set (ms r t i) \<Longrightarrow>
     i \<le> j \<and> (i \<le> length t \<longrightarrow> j \<le> length t) \<and> (i = j \<longrightarrow> nullable r) \<and>
     (i < j \<longrightarrow> j \<le> length t \<and> firstc r (t ! i) \<and> lastc r (t ! (j - 1)))"
proof (induction r arbitrary: i j)
  case Eps
  then show ?case by simp
next
  case (Sym k)
  then show ?case by (auto split: if_splits)
next
  case Bnd
  then show ?case by (auto split: if_splits)
next
  case (Cat a b)
  from Cat.prems obtain k where k: "k \<in> set (ms a t i)" "j \<in> set (ms b t k)" by auto
  show ?case using Cat.IH(1)[OF k(1)] Cat.IH(2)[OF k(2)]
    by (cases "i = k"; cases "k = j") auto
next
  case (Alt a b)
  then show ?case by auto
next
  case (Rep lo hi a)
  let ?P = "\<lambda>i j. i \<le> j \<and> (i \<le> length t \<longrightarrow> j \<le> length t) \<and>
     (i < j \<longrightarrow> j \<le> length t \<and> firstc a (t ! i) \<and> lastc a (t ! (j - 1)))"
  have step: "\<And>i j. j \<in> set (ms a t i) \<Longrightarrow> ?P i j" using Rep.IH by blast
  have refl: "\<And>i. ?P i i" by simp
  have trans: "?P i j \<Longrightarrow> ?P j k \<Longrightarrow> ?P i k" for i j k
    by (cases "i = j"; cases "j = k"; simp)
  have mem: "j \<in> set (rep (ms a t) lo hi i)" using Rep.prems by simp
  have P: "?P i j" using rep_closure[of "ms a t" ?P, OF step refl trans mem] .
  have "nullable a" if ij: "i = j" and lo: "lo \<noteq> 0"
  proof (cases hi)
    case 0
    then show ?thesis using mem lo by simp
  next
    case (Suc h)
    then obtain k where k: "k \<in> set (ms a t i)" "j \<in> set (rep (ms a t) (lo - 1) h k)"
      using mem lo unfolding Suc set_rep_Suc by auto
    have "?P k j" using rep_closure[of "ms a t" ?P, OF step refl trans k(2)] .
    moreover have "i \<le> k" using Rep.IH[OF k(1)] by simp
    ultimately have "i = k" using ij by simp
    then show ?thesis using Rep.IH[OF k(1)] by simp
  qed
  then show ?case using P by auto
next
  case (Star a)
  let ?P = "\<lambda>i j. i \<le> j \<and> (i \<le> length t \<longrightarrow> j \<le> length t) \<and>
     (i < j \<longrightarrow> j \<le> length t \<and> firstc a (t ! i) \<and> lastc a (t ! (j - 1)))"
  have step: "\<And>i j. j \<in> set (ms a t i) \<Longrightarrow> ?P i j" using Star.IH by blast
  have refl: "\<And>i. ?P i i" by simp
  have trans: "?P i j \<Longrightarrow> ?P j k \<Longrightarrow> ?P i k" for i j k
    by (cases "i = j"; cases "j = k"; simp)
  have mem: "j \<in> set (star (ms a t) (length t) i)" using Star.prems by simp
  show ?case using star_closure[of "ms a t" ?P, OF step refl trans mem] by simp
qed

lemma scan_sound:
  "(i, j) \<in> set (scan r t k) \<Longrightarrow> k \<le> i \<and> i \<le> length t \<and> j \<in> set (ms r t i)"
proof (induction r t k rule: scan.induct)
  case (1 r t k)
  show ?case
  proof (cases "length t < k")
    case True
    then show ?thesis using "1.prems" by (subst (asm) scan.simps) simp
  next
    case le: False
    show ?thesis
    proof (cases "ms r t k")
      case Nil
      then have "(i, j) \<in> set (scan r t (Suc k))"
        using "1.prems" le by (subst (asm) scan.simps) simp
      then show ?thesis using "1.IH"(1)[OF le Nil] by simp
    next
      case (Cons j' js)
      then have j': "j' \<in> set (ms r t k)" by simp
      show ?thesis
      proof (cases "k < j'")
        case True
        then have "(i, j) = (k, j') \<or> (i, j) \<in> set (scan r t j')"
          using "1.prems" le Cons by (subst (asm) scan.simps) simp
        then show ?thesis using "1.IH"(2)[OF le Cons True] True j' le by auto
      next
        case False
        then have "(i, j) = (k, k) \<or> (i, j) \<in> set (scan r t (Suc k))"
          using "1.prems" le Cons by (subst (asm) scan.simps) simp
        moreover have "j' = k" using ms_sound[OF j'] False by simp
        ultimately show ?thesis using "1.IH"(3)[OF le Cons False] j' le by auto
      qed
    qed
  qed
qed

lemma slice_substring:
  "i \<le> j \<Longrightarrow> j \<le> length t \<Longrightarrow> t = take i t @ slice t (i, j) @ drop j t"
proof -
  assume ij: "i \<le> j" "j \<le> length t"
  have "drop i t = take (j - i) (drop i t) @ drop (j - i) (drop i t)"
    by (rule append_take_drop_id[symmetric])
  moreover have "drop (j - i) (drop i t) = drop j t" using ij by simp
  ultimately have "drop i t = slice t (i, j) @ drop j t" unfolding slice_def by simp
  then show ?thesis by (metis append_take_drop_id)
qed

lemma slice_ends:
  assumes "i < j" "j \<le> length t"
  shows "slice t (i, j) \<noteq> []" "hd (slice t (i, j)) = t ! i" "last (slice t (i, j)) = t ! (j - 1)"
    "length (slice t (i, j)) = j - i"
proof -
  have len: "length (slice t (i, j)) = j - i" using assms unfolding slice_def by simp
  then show ne: "slice t (i, j) \<noteq> []" using assms by auto
  show "length (slice t (i, j)) = j - i" by (rule len)
  show "hd (slice t (i, j)) = t ! i"
    using assms unfolding slice_def by (simp add: hd_drop_conv_nth)
  have "last (slice t (i, j)) = slice t (i, j) ! (j - i - 1)"
    using ne len by (simp add: last_conv_nth)
  also have "\<dots> = t ! (j - 1)" using assms unfolding slice_def by simp
  finally show "last (slice t (i, j)) = t ! (j - 1)" .
qed

lemma findall_match:
  assumes "m \<in> set (findall r t)"
  obtains i j where "(i, j) \<in> set (scan r t 0)" "j \<in> set (ms r t i)" "i \<le> j" "j \<le> length t"
    "m = slice t (i, j)"
proof -
  from assms obtain ij where ij: "ij \<in> set (scan r t 0)" "m = slice t ij"
    unfolding findall_def by auto
  obtain i j where p: "ij = (i, j)" by (cases ij)
  have s: "i \<le> length t \<and> j \<in> set (ms r t i)" using scan_sound[of i j r t 0] ij p by simp
  then have "i \<le> j \<and> j \<le> length t" using ms_sound[of j r t i] by simp
  then show ?thesis using that[of i j] ij p s by simp
qed

lemma findall_first_last:
  assumes "\<not> nullable r" "m \<in> set (findall r t)"
  shows "m \<noteq> [] \<and> firstc r (hd m) \<and> lastc r (last m) \<and> (\<exists>u v. t = u @ m @ v)"
proof -
  from assms(2) obtain i j where ij: "j \<in> set (ms r t i)" "i \<le> j" "j \<le> length t"
    "m = slice t (i, j)" by (rule findall_match)
  have lt: "i < j" using ms_sound[OF ij(1)] assms(1) ij(2) by (cases "i = j") auto
  then have "firstc r (t ! i) \<and> lastc r (t ! (j - 1))" using ms_sound[OF ij(1)] by simp
  moreover have "t = take i t @ m @ drop j t" using slice_substring[OF ij(2,3)] ij(4) by simp
  ultimately show ?thesis using slice_ends[OF lt ij(3)] ij(4) by metis
qed

lemma strip_id: "m \<noteq> [] \<Longrightarrow> \<not> isspace_chr (hd m) \<Longrightarrow> \<not> isspace_chr (last m) \<Longrightarrow> strip m = m"
proof -
  assume a: "m \<noteq> []" "\<not> isspace_chr (hd m)" "\<not> isspace_chr (last m)"
  then have 1: "dropWhile isspace_chr m = m" by (cases m) auto
  obtain x xs where x: "rev m = x # xs" using a(1) by (cases "rev m") auto
  then have "x = last m" using a(1) by (metis hd_rev list.sel(1))
  then have nx: "\<not> isspace_chr x" using a(3) by simp
  have 2: "dropWhile isspace_chr (rev m) = rev m" unfolding x using nx by simp
  show ?thesis unfolding strip_def 1 2 by simp
qed

lemma decimal_not_space: "isdecimal c \<Longrightarrow> \<not> isspace_chr c"
  unfolding isdecimal_def isspace_chr_def by auto

lemma decimal_word: "isdecimal c \<Longrightarrow> isword c"
  unfolding isword_def isnumeric_chr_def isdigit_chr_def by simp

lemma phone_not_nullable: "\<not> nullable phone_pattern"
  unfolding phone_pattern_def sep_def Opt_def by simp

lemma phone_firstc_cases:
  "firstc phone_pattern c \<Longrightarrow> c = CHR ''+'' \<or> c = CHR ''('' \<or> isdecimal c"
  unfolding phone_pattern_def sep_def Opt_def by auto

lemma phone_firstc: "firstc phone_pattern c \<Longrightarrow> \<not> isspace_chr c"
proof -
  assume "firstc phone_pattern c"
  then consider "c = CHR ''+''" | "c = CHR ''(''" | "isdecimal c"
    using phone_firstc_cases by blast
  then show ?thesis
  proof cases
    case 1
    then show ?thesis unfolding isspace_chr_def cp_def by simp
  next
    case 2
    then show ?thesis unfolding isspace_chr_def cp_def by simp
  next
    case 3
    then show ?thesis by (rule decimal_not_space)
  qed
qed

lemma phone_lastc: "lastc phone_pattern c \<Longrightarrow> isdecimal c"
  unfolding phone_pattern_def sep_def Opt_def by auto

lemma phone_match_strip:
  "m \<in> set (findall phone_pattern t) \<Longrightarrow>
     m \<noteq> [] \<and> \<not> isspace_chr (hd m) \<and> \<not> isspace_chr (last m) \<and> strip m = m"
  using findall_first_last[OF phone_not_nullable, of m t] phone_firstc phone_lastc
    decimal_not_space strip_id by blast

subsection \<open>Matches of the card pattern\<close>

lemma slice_append:
  assumes "i \<le> k" "k \<le> j"
  shows "slice t (i, j) = slice t (i, k) @ slice t (k, j)"
proof -
  have "j - i = (k - i) + (j - k)" using assms by simp
  then have "take (j - i) (drop i t) = take (k - i) (drop i t) @ take (j - k) (drop (k - i) (drop i t))"
    by (simp only: take_add)
  moreover have "drop (k - i) (drop i t) = drop k t" using assms by simp
  ultimately show ?thesis unfolding slice_def by simp
qed

lemma digit_count_add:
  "i \<le> k \<Longrightarrow> k \<le> j \<Longrightarrow> digit_count t i j = digit_count t i k + digit_count t k j"
  unfolding digit_count_def by (simp add: slice_append[of i k j])

lemma digit_count_self: "digit_count t i i = 0"
  unfolding digit_count_def slice_def by simp

lemma slice_one: "i < length t \<Longrightarrow> slice t (i, Suc i) = [t ! i]"
  unfolding slice_def by (simp add: take_Suc_conv_app_nth hd_drop_conv_nth take_Suc)

lemma item_match:
  assumes "k \<in> set (ms (Cat (Sym [Digit]) (Opt (Sym [Lit CHR '' '', Lit CHR ''-'']))) t i)"
  shows "i \<le> k \<and> k \<le> length t \<and> digit_count t i k \<le> 1"
proof -
  from assms have i: "i < length t"
    and k: "k = Suc i \<or> (k = Suc (Suc i) \<and> Suc i < length t \<and> \<not> isdecimal (t ! Suc i))"
    unfolding Opt_def by (auto simp: isdecimal_def cp_def split: if_splits)
  have one: "digit_count t i (Suc i) \<le> 1"
    unfolding digit_count_def using slice_one[OF i] by simp
  from k show ?thesis
  proof
    assume "k = Suc i"
    then show ?thesis using i one by simp
  next
    assume h: "k = Suc (Suc i) \<and> Suc i < length t \<and> \<not> isdecimal (t ! Suc i)"
    then have "digit_count t (Suc i) (Suc (Suc i)) = 0"
      unfolding digit_count_def using slice_one[of "Suc i" t] by simp
    then have "digit_count t i (Suc (Suc i)) \<le> 1"
      using digit_count_add[of i "Suc i" "Suc (Suc i)" t] one by simp
    then show ?thesis using h by simp
  qed
qed

lemma rep_count:
  assumes step: "\<And>i k. k \<in> set (f i) \<Longrightarrow> i \<le> k \<and> k \<le> length t \<and> digit_count t i k \<le> 1"
  shows "j \<in> set (rep f lo hi i) \<Longrightarrow> i \<le> j \<and> digit_count t i j \<le> hi"
proof (induction hi arbitrary: lo i)
  case 0
  then show ?case by (auto simp: digit_count_self split: if_splits)
next
  case (Suc hi)
  from Suc.prems consider k where "k \<in> set (f i)" "j \<in> set (rep f (lo - 1) hi k)" | "j = i"
    unfolding set_rep_Suc by (auto split: if_splits)
  then show ?case
  proof cases
    case 1
    have a: "i \<le> k \<and> digit_count t i k \<le> 1" using step[OF 1(1)] by simp
    have b: "k \<le> j \<and> digit_count t k j \<le> hi" using Suc.IH[OF 1(2)] .
    show ?thesis using a b digit_count_add[of i k j t] by simp
  next
    case 2
    then show ?thesis by (simp add: digit_count_self)
  qed
qed

lemma credit_card_match:
  assumes "j \<in> set (ms credit_card_pattern t i)"
  shows "at_boundary t i \<and> at_boundary t j \<and> i \<le> j \<and> digit_count t i j \<le> 19"
proof -
  let ?item = "Cat (Sym [Digit]) (Opt (Sym [Lit CHR '' '', Lit CHR ''-'']))"
  from assms have b: "at_boundary t i" "at_boundary t j" and m: "j \<in> set (rep (ms ?item t) 13 19 i)"
    unfolding credit_card_pattern_def by (auto split: if_splits)
  show ?thesis using b rep_count[of "ms ?item t" t j 13 19 i, OF item_match m] by simp
qed

lemma run_not_overlapped:
  assumes run: "19 < length run" "list_all isdecimal run"
    and m: "j \<in> set (ms credit_card_pattern (a @ run @ b) i)"
  shows "j \<le> length a \<or> length a + length run \<le> i"
proof (rule ccontr)
  let ?t = "a @ run @ b"
  let ?n = "length run"
  assume "\<not> (j \<le> length a \<or> length a + ?n \<le> i)"
  then have ov: "length a < j" "i < length a + ?n" by simp_all
  have w: "isword (?t ! p)" if "length a \<le> p" "p < length a + ?n" for p
  proof -
    have q: "p - length a < ?n" using that by arith
    have "?t ! p = run ! (p - length a)" using that q by (simp add: nth_append)
    moreover have "isdecimal (run ! (p - length a))"
      using run(2) q by (simp add: list_all_length)
    ultimately show ?thesis using decimal_word by simp
  qed
  have inner: "\<not> at_boundary ?t p" if "length a < p" "p < length a + ?n" for p
    unfolding at_boundary_def using w[of p] w[of "p - 1"] that by auto
  have cm: "at_boundary ?t i \<and> at_boundary ?t j \<and> i \<le> j \<and> digit_count ?t i j \<le> 19"
    using credit_card_match[OF m] .
  have i: "i \<le> length a" using inner[of i] cm ov(2) by (cases "length a < i") auto
  have j: "length a + ?n \<le> j" using inner[of j] cm ov(1) by (cases "j < length a + ?n") auto
  have "slice ?t (length a, length a + ?n) = run" unfolding slice_def by simp
  then have "digit_count ?t (length a) (length a + ?n) = ?n"
    unfolding digit_count_def using run(2) by (simp add: list_all_iff)
  moreover have "digit_count ?t i j =
      digit_count ?t i (length a) + digit_count ?t (length a) (length a + ?n) +
      digit_count ?t (length a + ?n) j"
    using digit_count_add[of i "length a" j ?t] digit_count_add[of "length a" "length a + ?n" j ?t] i j
    by simp
  ultimately show False using cm run(1) by simp
qed

lemma findall_substring: "m \<in> set (findall r t) \<Longrightarrow> \<exists>u v. t = u @ m @ v"
proof -
  assume "m \<in> set (findall r t)"
  then obtain i j where "i \<le> j" "j \<le> length t" "m = slice t (i, j)" by (rule findall_match)
  then have "t = take i t @ m @ drop j t" using slice_substring[of i j t] by simp
  then show ?thesis by blast
qed




subsection \<open>Matching in a concatenation\<close>































subsection \<open>The validators\<close>

lemma validate_email_iff: "validate_email e = Inr (\<not> email_rejected e)"
proof (cases "contains e ''..'' \<or> startswith e ''.'' \<or> endswith e ''.''")
  case True
  then have "email_rejected e"
    unfolding email_rejected_def contains_iff startswith_iff endswith_iff by blast
  then show ?thesis using True unfolding validate_email_def by simp
next
  case False
  then have nd: "\<not> ((\<exists>u v. e = u @ ''..'' @ v) \<or> (\<exists>v. e = ''.'' @ v) \<or> (\<exists>u. e = u @ ''.''))"
    unfolding contains_iff startswith_iff endswith_iff by blast
  have bad: "list_ex (contains (lower e)) bad_stuff \<longleftrightarrow>
     (\<exists>bad \<in> set [''union'', ''select'', ''drop'', ''--'', ''/*'', ''*/''].
         \<exists>u w v. e = u @ w @ v \<and> lower w = bad)"
    unfolding list_ex_iff bad_stuff_def contains_iff lower_contains ..
  from unpack2_cases[of "split e CHR ''@''"] show ?thesis
  proof
    assume "\<exists>a b. split e CHR ''@'' = [a, b] \<and> unpack2 (split e CHR ''@'') = Inr (a, b)"
    then obtain a b where ab: "split e CHR ''@'' = [a, b]" "unpack2 (split e CHR ''@'') = Inr (a, b)"
      by blast
    then have e: "e = a @ ''@'' @ b" "CHR ''@'' \<notin> set a" "CHR ''@'' \<notin> set b"
      using split_two[of e "CHR ''@''" a b] by auto
    have uniq: "l = a \<and> d = b"
      if "e = l @ ''@'' @ d \<and> CHR ''@'' \<notin> set l \<and> CHR ''@'' \<notin> set d" for l d
    proof -
      have "split e CHR ''@'' = [l, d]" using that split_two[of e "CHR ''@''" l d] by simp
      then show ?thesis using ab(1) by simp
    qed
    have "email_rejected e \<longleftrightarrow> (64 < length a \<or> 255 < length b) \<or> list_ex (contains (lower e)) bad_stuff"
      unfolding email_rejected_def bad using nd e uniq by blast
    then show ?thesis using False ab(2) unfolding validate_email_def by auto
  next
    assume h: "(\<forall>a b. split e CHR ''@'' \<noteq> [a, b]) \<and> unpack2 (split e CHR ''@'') = Inl ValueError"
    then have "\<not> (\<exists>l d. e = l @ ''@'' @ d \<and> CHR ''@'' \<notin> set l \<and> CHR ''@'' \<notin> set d)"
      using split_two[of e "CHR ''@''"] by auto
    then have "email_rejected e" unfolding email_rejected_def by blast
    then show ?thesis using False h unfolding validate_email_def by simp
  qed
qed

lemma clean_of_filter: "clean_of c = filter (\<lambda>x. x \<noteq> CHR '' '' \<and> x \<noteq> CHR ''-'') c"
  unfolding clean_of_def remove_chr_def by (simp add: conj_commute)

lemma validate_credit_card_iff: "validate_credit_card c = Inr (card_accepted c)"
proof -
  let ?clean = "filter (\<lambda>x. x \<noteq> CHR '' '' \<and> x \<noteq> CHR ''-'') c"
  have "isdigit ?clean \<longleftrightarrow> ?clean \<noteq> [] \<and> (\<forall>x \<in> set ?clean. isdigit_chr x)"
    unfolding isdigit_def list_all_iff ..
  moreover have "13 \<le> length ?clean \<Longrightarrow> ?clean \<noteq> []" by auto
  ultimately show ?thesis
    unfolding validate_credit_card_def card_accepted_def clean_of_filter Let_def len_set_one
    by auto
qed

lemma validate_phone_iff: "validate_phone p = Inr (phone_accepted p)"
proof -
  have "10 \<le> length (filter isdecimal p) \<Longrightarrow> filter isdecimal p \<noteq> []" by auto
  then show ?thesis
    unfolding validate_phone_def phone_accepted_def sub_nondigits_def Let_def len_set_one
    by auto
qed

subsection \<open>The extraction loops\<close>

lemma validate_url_total: "\<exists>b. validate_url u = Inr b"
  unfolding validate_url_def by auto

lemma for_each_map:
  "(\<And>x. x \<in> set xs \<Longrightarrow> body x = Inr (g x)) \<Longrightarrow> for_each body xs acc = Inr (acc @ map g xs)"
  by (induction xs arbitrary: acc) auto

lemma email_finding_eq:
  "email_finding e = Inr (mk ''email'' e (verdict (\<not> email_rejected e)))"
  unfolding email_finding_def validate_email_iff verdict_def by simp

lemma url_finding_eq:
  "url_finding u = Inr (mk ''url'' u (verdict (validate_url u = Inr True)))"
  using validate_url_total[of u] unfolding url_finding_def verdict_def by auto

lemma phone_finding_eq:
  "phone_finding p = Inr (mk ''phone'' (strip p) (verdict (phone_accepted p)))"
  unfolding phone_finding_def validate_phone_iff verdict_def by simp

lemma credit_card_finding_eq:
  "credit_card_finding c =
     Inr (if card_accepted c
          then \<lparr>f_type = ''credit_card'', f_value = masked_of (clean_of c), f_status = ''valid'',
                raw_format = Some c\<rparr>
          else mk ''credit_card'' c ''invalid'')"
  unfolding credit_card_finding_def validate_credit_card_iff by (simp add: Let_def)

lemma extract_emails_eq:
  "extract_emails t =
     Inr (map (\<lambda>e. mk ''email'' e (verdict (\<not> email_rejected e))) (findall email_pattern t))"
  unfolding extract_emails_def using for_each_map[of _ email_finding _ "[]"] email_finding_eq by simp

lemma extract_urls_eq:
  "extract_urls t =
     Inr (map (\<lambda>u. mk ''url'' u (verdict (validate_url u = Inr True))) (findall url_pattern t))"
  unfolding extract_urls_def using for_each_map[of _ url_finding _ "[]"] url_finding_eq by simp

lemma extract_phone_numbers_eq:
  "extract_phone_numbers t =
     Inr (map (\<lambda>p. mk ''phone'' (strip p) (verdict (phone_accepted p))) (findall phone_pattern t))"
  unfolding extract_phone_numbers_def
  using for_each_map[of _ phone_finding _ "[]"] phone_finding_eq by simp

lemma extract_credit_cards_eq:
  "extract_credit_cards t =
     Inr (map (\<lambda>c. if card_accepted c
          then \<lparr>f_type = ''credit_card'', f_value = masked_of (clean_of c), f_status = ''valid'',
                raw_format = Some c\<rparr>
          else mk ''credit_card'' c ''invalid'') (findall credit_card_pattern t))"
  unfolding extract_credit_cards_def
  using for_each_map[of _ credit_card_finding _ "[]"] credit_card_finding_eq by simp


lemma card_accepted_length:
  "card_accepted c \<Longrightarrow> 13 \<le> length (clean_of c) \<and> length (clean_of c) \<le> 19"
  unfolding card_accepted_def clean_of_filter by (simp add: Let_def)

lemma masked_of_length: "length (masked_of s) = length s"
  unfolding masked_of_def by simp

lemma masked_of_take: "take (length s - 4) (masked_of s) = replicate (length s - 4) CHR ''*''"
  unfolding masked_of_def by simp

lemma masked_of_drop: "drop (length s - 4) (masked_of s) = drop (length s - 4) s"
  unfolding masked_of_def by simp

lemma masked_of_nth: "i < length s - 4 \<Longrightarrow> masked_of s ! i = CHR ''*''"
  unfolding masked_of_def by (simp add: nth_append)

lemma star_not_digit: "\<not> isdigit_chr CHR ''*''"
  unfolding isdigit_chr_def isdecimal_def cp_def by simp

section \<open>The claims\<close>

text \<open>
  C1. For every text and every credit-card finding with status \<open>valid\<close> that
  \<open>extract_credit_cards\<close> returns: the value is as long as the matched candidate with its
  spaces and hyphens deleted, it ends with the last four characters of that string, every
  character before them is an asterisk (so none of them is a digit), and \<open>raw_format\<close> is
  the matched candidate unchanged.
\<close>

theorem masked_value_shape:
  assumes "extract_credit_cards text = Inr fs" and "k < length fs"
    and "f_status (fs ! k) = ''valid''"
  shows "let cand = findall credit_card_pattern text ! k;
             clean = filter (\<lambda>x. x \<noteq> CHR '' '' \<and> x \<noteq> CHR ''-'') cand;
             v = f_value (fs ! k); n = length clean
         in length fs = length (findall credit_card_pattern text) \<and>
            length v = n \<and> 4 \<le> n \<and>
            drop (n - 4) v = drop (n - 4) clean \<and>
            (\<forall>i < n - 4. v ! i = CHR ''*'' \<and> \<not> isdigit_chr (v ! i)) \<and>
            raw_format (fs ! k) = Some cand"
proof -
  let ?cands = "findall credit_card_pattern text"
  let ?g = "\<lambda>c. if card_accepted c
          then \<lparr>f_type = ''credit_card'', f_value = masked_of (clean_of c), f_status = ''valid'',
                raw_format = Some c\<rparr>
          else mk ''credit_card'' c ''invalid''"
  have fs: "fs = map ?g ?cands" using assms(1) extract_credit_cards_eq[of "text"] by simp
  then have len: "length fs = length ?cands" by simp
  then have fk: "fs ! k = ?g (?cands ! k)" using fs assms(2) by simp
  have acc: "card_accepted (?cands ! k)"
    using assms(3) fk by (cases "card_accepted (?cands ! k)") (simp_all add: mk_def)
  then have v: "f_value (fs ! k) = masked_of (clean_of (?cands ! k))"
    and r: "raw_format (fs ! k) = Some (?cands ! k)" using fk by simp_all
  have n: "13 \<le> length (clean_of (?cands ! k))" using card_accepted_length[OF acc] by simp
  show ?thesis
    unfolding Let_def clean_of_filter[symmetric] v
    using len r n by (simp add: masked_of_length masked_of_drop masked_of_nth star_not_digit)
qed

theorem masked_value_shape_witness:
  "\<exists>fs. extract_credit_cards ''4532 1234 5678 9010'' = Inr fs \<and> 0 < length fs \<and>
        f_status (fs ! 0) = ''valid'' \<and> f_value (fs ! 0) = ''************9010'' \<and>
        length (f_value (fs ! 0)) = 16 \<and>
        raw_format (fs ! 0) = Some (findall credit_card_pattern ''4532 1234 5678 9010'' ! 0)"
proof -
  let ?f = "\<lparr>f_type = ''credit_card'', f_value = ''************9010'', f_status = ''valid'',
             raw_format = Some ''4532 1234 5678 9010''\<rparr>"
  have e: "extract_credit_cards ''4532 1234 5678 9010'' = Inr [?f]" by code_simp
  have s: "f_status ([?f] ! 0) = ''valid''" by simp
  have "raw_format ([?f] ! 0) = Some (findall credit_card_pattern ''4532 1234 5678 9010'' ! 0)"
    using masked_value_shape[OF e _ s] by (simp add: Let_def)
  then show ?thesis using e by simp
qed

text \<open>
  C2. \<open>validate_email\<close> returns False exactly when its argument contains two dots in a
  row, begins or ends with a dot, is not one local part and one domain part around a single
  at sign, has a local part of more than 64 or a domain part of more than 255 characters, or
  contains, in any letter case, one of the six denylisted tokens; it returns True otherwise.
  The candidate \<open>a..b@example.com\<close> is classified invalid and \<open>user+tag@example.com\<close>
  valid.
\<close>

theorem validate_email_spec:
  "validate_email e = Inr (\<not> email_rejected e) \<and>
   validate_email ''a..b@example.com'' = Inr False \<and>
   validate_email ''user+tag@example.com'' = Inr True \<and>
   extract_emails ''a..b@example.com'' = Inr [mk ''email'' ''a..b@example.com'' ''invalid''] \<and>
   extract_emails ''user+tag@example.com'' =
     Inr [mk ''email'' ''user+tag@example.com'' ''valid'']"
proof -
  have "validate_email ''a..b@example.com'' = Inr False" by code_simp
  moreover have "validate_email ''user+tag@example.com'' = Inr True" by code_simp
  moreover have "extract_emails ''a..b@example.com'' =
      Inr [mk ''email'' ''a..b@example.com'' ''invalid'']" by code_simp
  moreover have "extract_emails ''user+tag@example.com'' =
      Inr [mk ''email'' ''user+tag@example.com'' ''valid'']" by code_simp
  ultimately show ?thesis using validate_email_iff by simp
qed

theorem validate_email_spec_witness:
  "email_rejected ''a..b@example.com'' \<and> \<not> email_rejected ''user+tag@example.com'' \<and>
   email_rejected ''a@b@c.org'' \<and> email_rejected ''Select@example.com''"
proof -
  have "validate_email ''a@b@c.org'' = Inr False" by code_simp
  moreover have "validate_email ''Select@example.com'' = Inr False" by code_simp
  ultimately show ?thesis
    using validate_email_spec[of "''a..b@example.com''"]
      validate_email_spec[of "''user+tag@example.com''"]
      validate_email_spec[of "''a@b@c.org''"]
      validate_email_spec[of "''Select@example.com''"]
    by simp
qed








text \<open>
  C6. \<open>validate_phone\<close> returns True exactly when the string left after deleting every
  character that is not a digit (a character of \<open>\d\<close>) has between 10 and 15 digits that
  are not all the same. The candidate \<open>111-111-1111\<close> is classified invalid and
  \<open>(555) 123-4567\<close>, with exactly ten digits, valid.
\<close>

theorem validate_phone_spec:
  "validate_phone p = Inr (phone_accepted p) \<and>
   validate_phone ''111-111-1111'' = Inr False \<and>
   extract_phone_numbers ''111-111-1111'' = Inr [mk ''phone'' ''111-111-1111'' ''invalid''] \<and>
   validate_phone ''(555) 123-4567'' = Inr True \<and>
   length (sub_nondigits ''(555) 123-4567'') = 10 \<and>
   extract_phone_numbers ''(555) 123-4567'' = Inr [mk ''phone'' ''(555) 123-4567'' ''valid'']"
proof -
  have "validate_phone ''111-111-1111'' = Inr False" by code_simp
  moreover have "extract_phone_numbers ''111-111-1111'' =
      Inr [mk ''phone'' ''111-111-1111'' ''invalid'']" by code_simp
  moreover have "validate_phone ''(555) 123-4567'' = Inr True" by code_simp
  moreover have "length (sub_nondigits ''(555) 123-4567'') = 10" by code_simp
  moreover have "extract_phone_numbers ''(555) 123-4567'' =
      Inr [mk ''phone'' ''(555) 123-4567'' ''valid'']" by code_simp
  ultimately show ?thesis using validate_phone_iff by simp
qed

theorem validate_phone_spec_witness:
  "phone_accepted ''(555) 123-4567'' \<and> \<not> phone_accepted ''111-111-1111'' \<and>
   \<not> phone_accepted ''123-456''"
proof -
  have "validate_phone ''123-456'' = Inr False" by code_simp
  then show ?thesis
    using validate_phone_spec[of "''(555) 123-4567''"] validate_phone_spec[of "''111-111-1111''"]
      validate_phone_spec[of "''123-456''"]
    by simp
qed




text \<open>
  C8. For every text, every finding in the emails, urls and phones categories has as its
  value the exact substring that the category's pattern matched; the \<open>strip\<close> applied
  to a phone candidate changes nothing, because a phone match is not empty and neither begins
  nor ends with whitespace.
\<close>

theorem values_are_matched_substrings:
  "(\<exists>es. extract_emails text = Inr es \<and> map f_value es = findall email_pattern text) \<and>
   (\<exists>us. extract_urls text = Inr us \<and> map f_value us = findall url_pattern text) \<and>
   (\<exists>ps. extract_phone_numbers text = Inr ps \<and> map f_value ps = findall phone_pattern text) \<and>
   (\<forall>r. \<forall>m \<in> set (findall r text). \<exists>u v. text = u @ m @ v) \<and>
   (\<forall>m \<in> set (findall phone_pattern text).
      m \<noteq> [] \<and> \<not> isspace_chr (hd m) \<and> \<not> isspace_chr (last m) \<and> strip m = m)"
proof -
  have e: "map f_value (map (\<lambda>e. mk ''email'' e (verdict (\<not> email_rejected e))) xs) = xs" for xs
    by (induction xs) (simp_all add: mk_def)
  have u: "map f_value (map (\<lambda>u. mk ''url'' u (verdict (validate_url u = Inr True))) xs) = xs" for xs
    by (induction xs) (simp_all add: mk_def)
  have p: "map f_value (map (\<lambda>p. mk ''phone'' (strip p) (verdict (phone_accepted p))) xs) = xs"
    if "\<forall>m \<in> set xs. strip m = m" for xs
    using that by (induction xs) (simp_all add: mk_def)
  have s: "\<forall>m \<in> set (findall phone_pattern text).
      m \<noteq> [] \<and> \<not> isspace_chr (hd m) \<and> \<not> isspace_chr (last m) \<and> strip m = m"
    using phone_match_strip by blast
  show ?thesis
    unfolding extract_emails_eq extract_urls_eq extract_phone_numbers_eq
    using e u p s findall_substring by simp
qed

theorem values_are_matched_substrings_witness:
  "findall phone_pattern ''call (555) 123-4567 now'' = [''(555) 123-4567''] \<and>
   strip ''(555) 123-4567'' = ''(555) 123-4567'' \<and>
   (\<exists>ps. extract_phone_numbers ''call (555) 123-4567 now'' = Inr ps \<and>
         map f_value ps = [''(555) 123-4567''])"
proof -
  have f: "findall phone_pattern ''call (555) 123-4567 now'' = [''(555) 123-4567'']"
    by code_simp
  show ?thesis
    using values_are_matched_substrings[of "''call (555) 123-4567 now''"] unfolding f by simp
qed

text \<open>
  C9. In \<open>extract_credit_cards\<close> the masking expression is evaluated only in the branch
  of a candidate that \<open>validate_credit_card\<close> accepted; the string it is applied to then
  has between 13 and 19 characters, never fewer than four. A rejected candidate is
  reported with its value as matched and without \<open>raw_format\<close>.
\<close>

theorem mask_only_after_validation:
  assumes "extract_credit_cards text = Inr fs" and "k < length fs"
  shows "let cand = findall credit_card_pattern text ! k; clean = clean_of cand
         in length fs = length (findall credit_card_pattern text) \<and>
            (if validate_credit_card cand = Inr True
             then f_status (fs ! k) = ''valid'' \<and> f_value (fs ! k) = masked_of clean \<and>
                  13 \<le> length clean \<and> length clean \<le> 19 \<and> \<not> length clean < 4
             else f_status (fs ! k) = ''invalid'' \<and> f_value (fs ! k) = cand \<and>
                  raw_format (fs ! k) = None)"
proof -
  let ?cands = "findall credit_card_pattern text"
  let ?g = "\<lambda>c. if card_accepted c
          then \<lparr>f_type = ''credit_card'', f_value = masked_of (clean_of c), f_status = ''valid'',
                raw_format = Some c\<rparr>
          else mk ''credit_card'' c ''invalid''"
  have fs: "fs = map ?g ?cands" using assms(1) unfolding extract_credit_cards_eq by simp
  then have len: "length fs = length ?cands" by simp
  then have fk: "fs ! k = ?g (?cands ! k)" using fs assms(2) by simp
  show ?thesis
  proof (cases "card_accepted (?cands ! k)")
    case True
    then show ?thesis
      using len fk card_accepted_length[OF True]
      unfolding Let_def validate_credit_card_iff by simp
  next
    case False
    then show ?thesis
      using len fk unfolding Let_def validate_credit_card_iff by (simp add: mk_def)
  qed
qed

theorem mask_only_after_validation_witness:
  "\<exists>fs. extract_credit_cards ''4532 1234 5678 9010, 9999-9999-9999-9999'' = Inr fs \<and>
        length fs = 2 \<and>
        f_value (fs ! 0) = masked_of (clean_of ''4532 1234 5678 9010'') \<and>
        length (clean_of ''4532 1234 5678 9010'') = 16 \<and>
        f_value (fs ! 1) = ''9999-9999-9999-9999'' \<and> raw_format (fs ! 1) = None"
proof -
  let ?t = "''4532 1234 5678 9010, 9999-9999-9999-9999''"
  obtain fs where fs: "extract_credit_cards ?t = Inr fs"
    using extract_credit_cards_eq by blast
  have c: "findall credit_card_pattern ?t = [''4532 1234 5678 9010'', ''9999-9999-9999-9999'']"
    by code_simp
  have v1: "validate_credit_card ''4532 1234 5678 9010'' = Inr True" by code_simp
  have v2: "validate_credit_card ''9999-9999-9999-9999'' = Inr False" by code_simp
  have n: "length (clean_of ''4532 1234 5678 9010'') = 16" by code_simp
  have "Inr fs = Inr (map (\<lambda>c. if card_accepted c
          then \<lparr>f_type = ''credit_card'', f_value = masked_of (clean_of c), f_status = ''valid'',
                raw_format = Some c\<rparr>
          else mk ''credit_card'' c ''invalid'') (findall credit_card_pattern ?t))"
    using fs extract_credit_cards_eq[of ?t] by simp
  then have l: "length fs = 2" unfolding c by simp
  have "f_value (fs ! 0) = masked_of (clean_of ''4532 1234 5678 9010'')"
    using mask_only_after_validation[OF fs, of 0] l unfolding c Let_def by (simp add: v1)
  moreover have "f_value (fs ! 1) = ''9999-9999-9999-9999'' \<and> raw_format (fs ! 1) = None"
    using mask_only_after_validation[OF fs, of 1] l unfolding c Let_def by (simp add: v2)
  ultimately show ?thesis using fs l n by blast
qed

text \<open>
  C10. A run of more than 19 decimal digits, with nothing between them, is covered by no
  match of the card pattern, wherever it stands in the text (the run need not even be
  maximal): every match lies wholly before the run or wholly after it. The findings of
  \<open>extract_credit_cards\<close> are made one from each match, so the run yields no finding,
  valid or invalid.
\<close>

theorem long_digit_run_dropped:
  assumes "19 < length run" and "list_all isdecimal run"
  shows "(\<forall>(i, j) \<in> set (scan credit_card_pattern (a @ run @ b) 0).
            j \<le> length a \<or> length a + length run \<le> i) \<and>
         (\<exists>fs. extract_credit_cards (a @ run @ b) = Inr fs \<and>
               length fs = length (scan credit_card_pattern (a @ run @ b) 0) \<and>
               (\<forall>k < length fs.
                  let m = slice (a @ run @ b) (scan credit_card_pattern (a @ run @ b) 0 ! k)
                  in raw_format (fs ! k) = Some m \<or> f_value (fs ! k) = m))"
proof -
  have "j \<le> length a \<or> length a + length run \<le> i"
    if "(i, j) \<in> set (scan credit_card_pattern (a @ run @ b) 0)" for i j
    using run_not_overlapped[OF assms, of j a b i] scan_sound[OF that] by simp
  then show ?thesis unfolding extract_credit_cards_eq findall_def by (auto simp: mk_def)
qed

theorem long_digit_run_dropped_witness:
  "19 < length ''12345678901234567890'' \<and> list_all isdecimal ''12345678901234567890'' \<and>
   scan credit_card_pattern (''4532 1234 5678 9010, '' @ ''12345678901234567890'' @ '' ok'') 0
     = [(0, 19)] \<and>
   (19 \<le> length ''4532 1234 5678 9010, '' \<or>
    length ''4532 1234 5678 9010, '' + length ''12345678901234567890'' \<le> 0)"
proof -
  have h1: "19 < length ''12345678901234567890''" by simp
  have h2: "list_all isdecimal ''12345678901234567890''" by code_simp
  have s: "scan credit_card_pattern
      (''4532 1234 5678 9010, '' @ ''12345678901234567890'' @ '' ok'') 0 = [(0, 19)]"
    by code_simp
  show ?thesis
    using long_digit_run_dropped[OF h1 h2, of "''4532 1234 5678 9010, ''" "'' ok''"] h1 h2
    unfolding s by simp
qed

end
